theory Spec2Isabelle
  imports Complex_Main "HOL-Library.Sublist"
begin

section \<open>Python strings\<close>

text \<open>
  The engine reads its text with four operations of Python's \<^verbatim>\<open>str\<close>:
  \<^verbatim>\<open>lower\<close>, \<^verbatim>\<open>upper\<close>, \<^verbatim>\<open>strip\<close> and the substring test \<^verbatim>\<open>in\<close>.
  A text is a \<^typ>\<open>string\<close>, and a \<^typ>\<open>char\<close> is the code point of the same
  number, from 0 to 255. On these code points the character classes and the case
  mappings below are Python's: \<^verbatim>\<open>str.isspace\<close>, the regular expression classes
  \<^verbatim>\<open>\s\<close> and \<^verbatim>\<open>\w\<close> of a \<^verbatim>\<open>str\<close> pattern, \<^verbatim>\<open>str.lower\<close> and
  \<^verbatim>\<open>str.upper\<close>. Lower-casing stays within these code points. Upper-casing does
  not: the micro sign becomes U+039C, y with diaeresis becomes U+0178, and the sharp s
  becomes two letters. The result of \<^verbatim>\<open>upper\<close> is therefore a list of code points.
\<close>

type_synonym unicode = "nat list"

definition code_points :: "string \<Rightarrow> unicode" where
  \<comment> \<open>A text as the list of its code points, for comparing with a result of \<^verbatim>\<open>upper\<close>.\<close>
  "code_points text = map of_char text"

definition isspace :: "char \<Rightarrow> bool" where
  \<comment> \<open>\<^verbatim>\<open>str.isspace\<close>: TAB, LF, VT, FF, CR, FS, GS, RS, US, the blank, NEL and the
      no-break space.\<close>
  "isspace c = (let n = (of_char c :: nat) in
     (9 \<le> n \<and> n \<le> 13) \<or> (28 \<le> n \<and> n \<le> 32) \<or> n = 133 \<or> n = 160)"

definition isword :: "char \<Rightarrow> bool" where
  \<comment> \<open>The class \<^verbatim>\<open>\w\<close>: the underscore and the characters for which \<^verbatim>\<open>str.isalnum\<close>
      holds, which are the ASCII letters and digits, the ordinal indicators, the micro
      sign, the superscript digits, the fractions and the accented letters.\<close>
  "isword c = (let n = (of_char c :: nat) in
     (48 \<le> n \<and> n \<le> 57) \<or> (65 \<le> n \<and> n \<le> 90) \<or> n = 95 \<or> (97 \<le> n \<and> n \<le> 122) \<or>
     n = 170 \<or> n = 178 \<or> n = 179 \<or> n = 181 \<or> n = 185 \<or> n = 186 \<or>
     (188 \<le> n \<and> n \<le> 190) \<or> (192 \<le> n \<and> n \<le> 214) \<or> (216 \<le> n \<and> n \<le> 246) \<or>
     (248 \<le> n \<and> n \<le> 255))"

definition lower_char :: "char \<Rightarrow> char" where
  \<comment> \<open>\<^verbatim>\<open>A\<close> to \<^verbatim>\<open>Z\<close> and the accented capitals, without the multiplication sign.\<close>
  "lower_char c = (let n = (of_char c :: nat) in
     if (65 \<le> n \<and> n \<le> 90) \<or> (192 \<le> n \<and> n \<le> 214) \<or> (216 \<le> n \<and> n \<le> 222)
     then char_of (n + 32) else c)"

definition upper_char :: "char \<Rightarrow> unicode" where
  "upper_char c = (let n = (of_char c :: nat) in
     if n = 181 then [924]
     else if n = 223 then [83, 83]
     else if n = 255 then [376]
     else if (97 \<le> n \<and> n \<le> 122) \<or> (224 \<le> n \<and> n \<le> 246) \<or> (248 \<le> n \<and> n \<le> 254)
     then [n - 32] else [n])"

definition lower :: "string \<Rightarrow> string" where
  "lower text = map lower_char text"

definition upper :: "string \<Rightarrow> unicode" where
  "upper text = concat (map upper_char text)"

definition strip :: "string \<Rightarrow> string" where
  \<comment> \<open>\<^verbatim>\<open>str.strip()\<close>: whitespace is removed at both ends, never inside.\<close>
  "strip text = rev (dropWhile isspace (rev (dropWhile isspace text)))"

section \<open>The regular expression of the rule matcher\<close>

text \<open>
  \<^verbatim>\<open>SQL_INJECTION_REGEX\<close> is built from case-insensitive literals, \<^verbatim>\<open>\s+\<close>,
  \<^verbatim>\<open>\b\<close>, sequence and alternation. \<open>rx_ends r text i\<close> lists, in the order a
  backtracking matcher tries them, the positions at which a match of \<open>r\<close> that starts
  at position \<open>i\<close> of \<open>text\<close> can end. Under \<^verbatim>\<open>re.IGNORECASE\<close> a character of
  the text matches a letter of the pattern when its lower case is the lower case of
  that letter; for the letters of the four keyword pairs these are the letter itself
  in its two cases.
\<close>

datatype regex =
    Lit string
  | Spaces1
  | WordB
  | Seq regex regex
  | Alt regex regex

definition at_boundary :: "string \<Rightarrow> nat \<Rightarrow> bool" where
  \<comment> \<open>\<^verbatim>\<open>\b\<close>: exactly one of the characters before and after the position is a word
      character; outside the text there is none.\<close>
  "at_boundary text i =
     ((0 < i \<and> i \<le> length text \<and> isword (text ! (i - 1))) \<noteq> (i < length text \<and> isword (text ! i)))"

fun rx_ends :: "regex \<Rightarrow> string \<Rightarrow> nat \<Rightarrow> nat list" where
  "rx_ends (Lit p) text i =
     (if map lower_char (take (length p) (drop i text)) = map lower_char p
      then [i + length p] else [])"
| "rx_ends Spaces1 text i =
     map (\<lambda>k. i + k) (rev [1 ..< Suc (length (takeWhile isspace (drop i text)))])"
| "rx_ends WordB text i = (if at_boundary text i then [i] else [])"
| "rx_ends (Seq a b) text i = concat (map (rx_ends b text) (rx_ends a text i))"
| "rx_ends (Alt a b) text i = rx_ends a text i @ rx_ends b text i"

definition search :: "regex \<Rightarrow> string \<Rightarrow> bool" where
  \<comment> \<open>\<^verbatim>\<open>pattern.search(text)\<close> as a truth value: a match starts somewhere.\<close>
  "search r text = list_ex (\<lambda>i. rx_ends r text i \<noteq> []) [0 ..< Suc (length text)]"

section \<open>Configuration\<close>

definition BLOCKLIST :: "string set" where
  "BLOCKLIST = {''hack'', ''exploit'', ''malicious'', ''inject'', ''root''}"

definition two_words :: "string \<Rightarrow> string \<Rightarrow> regex" where
  "two_words a b = Seq (Lit a) (Seq Spaces1 (Lit b))"

definition SQL_INJECTION_REGEX :: regex where
  "SQL_INJECTION_REGEX =
     Seq WordB
       (Seq (Alt (two_words ''DROP'' ''TABLE'')
              (Alt (two_words ''UNION'' ''SELECT'')
                (Alt (two_words ''INSERT'' ''INTO'') (two_words ''DELETE'' ''FROM''))))
            WordB)"

definition CACHE_SIZE :: nat where
  "CACHE_SIZE = 1000"

definition CONFIDENCE_THRESHOLD :: real where
  "CONFIDENCE_THRESHOLD = 0.8"

section \<open>Rule matcher\<close>

definition rule_based_checks :: "string \<Rightarrow> string option" where
  "rule_based_checks text =
     (let text_lower = lower text in
      if \<exists>word \<in> BLOCKLIST. sublist word text_lower
      then Some ''Blocked due to prohibited keyword.''
      else if search SQL_INJECTION_REGEX text
      then Some ''SQL injection attempt detected.''
      else None)"

section \<open>The external capabilities and the state of the process\<close>

text \<open>
  \<^verbatim>\<open>classification_chain.invoke\<close> and \<^verbatim>\<open>response_chain.invoke\<close> call a language
  model: each invocation either returns a string or raises an \<^verbatim>\<open>Exception\<close> (the
  class both handlers catch). A capability is a function of the number of invocations
  made before and of the text, so it may answer the same text differently at each call.
  The state holds what the process keeps between calls: the entries of the
  \<^verbatim>\<open>lru_cache\<close> around the classifier, most recently used first, and the texts each
  capability has been invoked with, oldest first. The \<^verbatim>\<open>print\<close> calls are left out.
\<close>

datatype exception = Exception string

type_synonym capability = "nat \<Rightarrow> string \<Rightarrow> exception + string"

record env =
  classification_chain :: capability
  response_chain :: capability

record ai_result =
  label :: unicode
  score :: real

record state =
  cache :: "(string \<times> ai_result) list"
  classify_log :: "string list"
  generate_log :: "string list"

definition init_state :: state where
  "init_state = \<lparr>cache = [], classify_log = [], generate_log = []\<rparr>"

text \<open>
  The dictionary \<^verbatim>\<open>is_input_safe\<close> returns, which becomes a
  \<^verbatim>\<open>FirewallResponse\<close>: a key that is missing or holds \<^verbatim>\<open>None\<close> is \<open>None\<close>.
  The field \<open>confidence\<close> is the key \<^verbatim>\<open>score\<close> of the dictionary.
\<close>

record verdict =
  status :: string
  reason :: "string option"
  confidence :: "real option"
  response :: string

section \<open>Classification cache\<close>

text \<open>
  \<^verbatim>\<open>functools.lru_cache(maxsize)\<close> around a function of one string. A hit returns
  the stored result and makes the entry the most recently used one. A miss calls the
  function, and stores the result unless the key has appeared meanwhile; when the cache
  is full, the least recently used entry makes room. With \<^verbatim>\<open>maxsize=0\<close> nothing is
  stored.
\<close>

definition lru_cache ::
  "nat \<Rightarrow> (state \<Rightarrow> string \<Rightarrow> ai_result \<times> state) \<Rightarrow> state \<Rightarrow> string \<Rightarrow> ai_result \<times> state" where
  "lru_cache maxsize user_function s key =
     (if maxsize = 0 then user_function s key
      else case map_of (cache s) key of
        Some result \<Rightarrow>
          (result, s\<lparr>cache := (key, result) # filter (\<lambda>e. fst e \<noteq> key) (cache s)\<rparr>)
      | None \<Rightarrow>
          (let (result, s1) = user_function s key in
           if map_of (cache s1) key \<noteq> None then (result, s1)
           else if length (cache s1) < maxsize
             then (result, s1\<lparr>cache := (key, result) # cache s1\<rparr>)
             else (result, s1\<lparr>cache := (key, result) # butlast (cache s1)\<rparr>)))"

section \<open>Core firewall logic\<close>

definition classify_uncached :: "env \<Rightarrow> state \<Rightarrow> string \<Rightarrow> ai_result \<times> state" where
  \<comment> \<open>The body of \<^verbatim>\<open>classify_input_with_ollama\<close>, under the decorator.\<close>
  "classify_uncached env s text =
     (let s1 = s\<lparr>classify_log := classify_log s @ [text]\<rparr> in
      case classification_chain env (length (classify_log s)) text of
        Inr result \<Rightarrow>
          (let classification = upper (strip result) in
           (\<lparr>label = classification,
             score = (if classification = code_points ''UNSAFE'' then 1.0 else 0.0)\<rparr>, s1))
      | Inl e \<Rightarrow> (\<lparr>label = code_points ''UNSAFE'', score = 1.0\<rparr>, s1))"

definition classify_input_with_ollama :: "env \<Rightarrow> state \<Rightarrow> string \<Rightarrow> ai_result \<times> state" where
  "classify_input_with_ollama env = lru_cache CACHE_SIZE (classify_uncached env)"

definition generate_ollama_response :: "env \<Rightarrow> state \<Rightarrow> string \<Rightarrow> string \<times> state" where
  "generate_ollama_response env s text =
     (let s1 = s\<lparr>generate_log := generate_log s @ [text]\<rparr> in
      case response_chain env (length (generate_log s)) text of
        Inr reply \<Rightarrow>
          ((if strip reply \<noteq> [] then strip reply else ''No response generated.''), s1)
      | Inl e \<Rightarrow> (''Error generating response.'', s1))"

definition decide :: "env \<Rightarrow> state \<Rightarrow> string \<Rightarrow> ai_result \<Rightarrow> verdict \<times> state" where
  \<comment> \<open>\<^verbatim>\<open>is_input_safe\<close> from the test of \<^verbatim>\<open>ai_result\<close> to its end.\<close>
  "decide env s text ai =
     (if label ai = code_points ''UNSAFE'' \<and> score ai > CONFIDENCE_THRESHOLD
      then (\<lparr>status = ''blocked'', reason = Some ''Ollama classified as unsafe'',
              confidence = Some (score ai),
              response = ''This prompt is unsafe, can't answer.''\<rparr>, s)
      else (let (reply, s1) = generate_ollama_response env s text in
            (\<lparr>status = ''allowed'', reason = None, confidence = Some (score ai),
              response = reply\<rparr>, s1)))"

definition is_input_safe :: "env \<Rightarrow> state \<Rightarrow> string \<Rightarrow> verdict \<times> state" where
  "is_input_safe env s text =
     (case rule_based_checks text of
        Some rule_based_reason \<Rightarrow>
          if rule_based_reason \<noteq> []
          then (\<lparr>status = ''blocked'', reason = Some rule_based_reason, confidence = None,
                  response = ''This prompt is unsafe, can't answer.''\<rparr>, s)
          else (let (ai, s1) = classify_input_with_ollama env s text in decide env s1 text ai)
      | None \<Rightarrow>
          (let (ai, s1) = classify_input_with_ollama env s text in decide env s1 text ai))"

text \<open>
  The states the process can be in: it starts with an empty cache, and
  \<^verbatim>\<open>is_input_safe\<close>, the only caller of the functions above, is run on one text
  after another.
\<close>

inductive reachable :: "env \<Rightarrow> state \<Rightarrow> bool" for env :: env where
  start: "reachable env init_state"
| call: "reachable env s \<Longrightarrow> reachable env (snd (is_input_safe env s text))"

text \<open>A cached function called on one key after another.\<close>

fun call_all :: "(state \<Rightarrow> string \<Rightarrow> ai_result \<times> state) \<Rightarrow> state \<Rightarrow> string list \<Rightarrow> state" where
  "call_all f s [] = s"
| "call_all f s (key # keys) = call_all f (snd (f s key)) keys"

text \<open>
  The cache as section 4.2 of the specification words it, for comparison with
  \<^verbatim>\<open>lru_cache\<close>: a hit returns the stored result and leaves the queue as it is; a
  miss computes and stores the result, and when the entry count then exceeds the
  capacity, the entry inserted first is evicted. The entries are kept newest first.
\<close>

definition spec_insertion_order_cache ::
  "nat \<Rightarrow> (state \<Rightarrow> string \<Rightarrow> ai_result \<times> state) \<Rightarrow> state \<Rightarrow> string \<Rightarrow> ai_result \<times> state" where
  "spec_insertion_order_cache capacity compute_fn s key =
     (case map_of (cache s) key of
        Some result \<Rightarrow> (result, s)
      | None \<Rightarrow>
          (let (result, s1) = compute_fn s key;
               entries = (key, result) # cache s1
           in (result,
               s1\<lparr>cache := (if length entries > capacity then butlast entries else entries)\<rparr>)))"

text \<open>
  Capabilities that answer every invocation alike, for evaluating the engine on concrete
  inputs.
\<close>

definition fixed_env :: "exception + string \<Rightarrow> exception + string \<Rightarrow> env" where
  "fixed_env c g = \<lparr>classification_chain = (\<lambda>n text. c), response_chain = (\<lambda>n text. g)\<rparr>"

definition changing_env :: env where
  \<comment> \<open>A classifier that answers \<^verbatim>\<open>SAFE\<close> at its first invocation and \<^verbatim>\<open>UNSAFE\<close> afterwards.\<close>
  "changing_env =
     \<lparr>classification_chain = (\<lambda>n text. if n = 0 then Inr ''SAFE'' else Inr ''UNSAFE''),
      response_chain = (\<lambda>n text. Inr ''ok'')\<rparr>"

section \<open>Basic facts\<close>

subsection \<open>String facts\<close>

lemma lower_sublist: "sublist u text \<Longrightarrow> sublist (lower u) (lower text)"
  unfolding lower_def by (rule map_mono_sublist)

lemma strip_empty_iff: "strip reply = [] \<longleftrightarrow> (\<forall>c \<in> set reply. isspace c)"
proof
  assume "strip reply = []"
  then have all: "\<forall>c \<in> set (dropWhile isspace reply). isspace c"
    by (simp add: strip_def dropWhile_eq_Nil_conv)
  have "dropWhile isspace reply = []"
  proof (rule ccontr)
    assume ne: "dropWhile isspace reply \<noteq> []"
    then have "\<not> isspace (hd (dropWhile isspace reply))" by (rule hd_dropWhile)
    moreover from ne have "hd (dropWhile isspace reply) \<in> set (dropWhile isspace reply)" by simp
    ultimately show False using all by blast
  qed
  then show "\<forall>c \<in> set reply. isspace c" by (simp add: dropWhile_eq_Nil_conv)
next
  assume "\<forall>c \<in> set reply. isspace c"
  then have "dropWhile isspace reply = []" by (simp add: dropWhile_eq_Nil_conv)
  then show "strip reply = []" by (simp only: strip_def rev.simps dropWhile.simps)
qed

subsection \<open>The rule matcher\<close>

lemma rule_based_checks_nonempty: "rule_based_checks text = Some r \<Longrightarrow> r \<noteq> []"
  by (auto simp: rule_based_checks_def Let_def split: if_splits)

subsection \<open>The classifier\<close>

lemma classify_uncached_cache [simp]: "cache (snd (classify_uncached env s text)) = cache s"
  by (simp add: classify_uncached_def Let_def split: sum.splits)

lemma classify_uncached_classify_log [simp]:
  "classify_log (snd (classify_uncached env s text)) = classify_log s @ [text]"
  by (simp add: classify_uncached_def Let_def split: sum.splits)

lemma classify_uncached_generate_log [simp]:
  "generate_log (snd (classify_uncached env s text)) = generate_log s"
  by (simp add: classify_uncached_def Let_def split: sum.splits)

lemma classify_uncached_score:
  "score (fst (classify_uncached env s text)) =
     (if label (fst (classify_uncached env s text)) = code_points ''UNSAFE'' then 1 else 0)"
  by (simp add: classify_uncached_def Let_def split: sum.splits)

lemma classify_uncached_raises:
  "classification_chain env (length (classify_log s)) text = Inl e \<Longrightarrow>
   fst (classify_uncached env s text) = \<lparr>label = code_points ''UNSAFE'', score = 1\<rparr>"
  by (simp add: classify_uncached_def Let_def)

lemma classify_uncached_returns:
  "classification_chain env (length (classify_log s)) text = Inr raw \<Longrightarrow>
   fst (classify_uncached env s text) =
     \<lparr>label = upper (strip raw), score = (if upper (strip raw) = code_points ''UNSAFE'' then 1 else 0)\<rparr>"
  by (simp add: classify_uncached_def Let_def)

subsection \<open>The cache\<close>

lemma lru_cache_hit:
  "0 < maxsize \<Longrightarrow> map_of (cache s) key = Some r \<Longrightarrow>
   lru_cache maxsize f s key = (r, s\<lparr>cache := (key, r) # filter (\<lambda>e. fst e \<noteq> key) (cache s)\<rparr>)"
  by (simp add: lru_cache_def)

lemma lru_cache_miss:
  "0 < maxsize \<Longrightarrow> map_of (cache s) key = None \<Longrightarrow>
   lru_cache maxsize (classify_uncached env) s key =
     (fst (classify_uncached env s key),
      (snd (classify_uncached env s key))
        \<lparr>cache := (key, fst (classify_uncached env s key)) #
           (if length (cache s) < maxsize then cache s else butlast (cache s))\<rparr>)"
  by (simp add: lru_cache_def split_beta Let_def)

lemma classify_hit:
  "map_of (cache s) text = Some r \<Longrightarrow>
   classify_input_with_ollama env s text =
     (r, s\<lparr>cache := (text, r) # filter (\<lambda>e. fst e \<noteq> text) (cache s)\<rparr>)"
  by (simp add: classify_input_with_ollama_def lru_cache_hit CACHE_SIZE_def)

lemma classify_miss:
  "map_of (cache s) text = None \<Longrightarrow>
   classify_input_with_ollama env s text =
     (fst (classify_uncached env s text),
      (snd (classify_uncached env s text))
        \<lparr>cache := (text, fst (classify_uncached env s text)) #
           (if length (cache s) < CACHE_SIZE then cache s else butlast (cache s))\<rparr>)"
  by (simp add: classify_input_with_ollama_def lru_cache_miss CACHE_SIZE_def)

lemma classify_log_hit_iff:
  "classify_log (snd (classify_input_with_ollama env s text)) = classify_log s
     \<longleftrightarrow> map_of (cache s) text \<noteq> None"
  by (cases "map_of (cache s) text") (simp_all add: classify_hit classify_miss)

lemma classify_generate_log [simp]:
  "generate_log (snd (classify_input_with_ollama env s text)) = generate_log s"
  by (cases "map_of (cache s) text") (simp_all add: classify_hit classify_miss)

subsection \<open>The generator and the decision\<close>

lemma generate_cache [simp]: "cache (snd (generate_ollama_response env s text)) = cache s"
  by (simp add: generate_ollama_response_def Let_def split: sum.splits)

lemma generate_classify_log [simp]:
  "classify_log (snd (generate_ollama_response env s text)) = classify_log s"
  by (simp add: generate_ollama_response_def Let_def split: sum.splits)

lemma generate_generate_log [simp]:
  "generate_log (snd (generate_ollama_response env s text)) = generate_log s @ [text]"
  by (simp add: generate_ollama_response_def Let_def split: sum.splits)

lemma decide_blocked:
  "label ai = code_points ''UNSAFE'' \<and> score ai > CONFIDENCE_THRESHOLD \<Longrightarrow>
   decide env s text ai =
     (\<lparr>status = ''blocked'', reason = Some ''Ollama classified as unsafe'',
       confidence = Some (score ai), response = ''This prompt is unsafe, can't answer.''\<rparr>, s)"
  by (simp add: decide_def)

lemma decide_allowed:
  "\<not> (label ai = code_points ''UNSAFE'' \<and> score ai > CONFIDENCE_THRESHOLD) \<Longrightarrow>
   decide env s text ai =
     (\<lparr>status = ''allowed'', reason = None, confidence = Some (score ai),
       response = fst (generate_ollama_response env s text)\<rparr>,
      snd (generate_ollama_response env s text))"
  by (simp add: decide_def split_beta)

lemma decide_cache [simp]: "cache (snd (decide env s text ai)) = cache s"
  by (cases "label ai = code_points ''UNSAFE'' \<and> score ai > CONFIDENCE_THRESHOLD")
     (simp_all add: decide_blocked decide_allowed)

lemma decide_classify_log [simp]: "classify_log (snd (decide env s text ai)) = classify_log s"
  by (cases "label ai = code_points ''UNSAFE'' \<and> score ai > CONFIDENCE_THRESHOLD")
     (simp_all add: decide_blocked decide_allowed)

lemma status_decide:
  "status (fst (decide env s text ai)) =
     (if label ai = code_points ''UNSAFE'' \<and> score ai > CONFIDENCE_THRESHOLD then ''blocked'' else ''allowed'')"
  by (simp add: decide_def split_beta)

lemma decide_generate_log:
  "generate_log (snd (decide env s text ai)) =
     (if label ai = code_points ''UNSAFE'' \<and> score ai > CONFIDENCE_THRESHOLD
      then generate_log s else generate_log s @ [text])"
  by (simp add: decide_blocked decide_allowed)

lemma is_input_safe_rule:
  "rule_based_checks text = Some r \<Longrightarrow>
   is_input_safe env s text =
     (\<lparr>status = ''blocked'', reason = Some r, confidence = None,
       response = ''This prompt is unsafe, can't answer.''\<rparr>, s)"
  by (simp add: is_input_safe_def rule_based_checks_nonempty)

lemma is_input_safe_no_rule:
  "rule_based_checks text = None \<Longrightarrow>
   is_input_safe env s text =
     decide env (snd (classify_input_with_ollama env s text)) text
       (fst (classify_input_with_ollama env s text))"
  by (simp add: is_input_safe_def split_beta)

subsection \<open>Reachable states\<close>

lemma is_input_safe_cache_subset:
  "set (cache (snd (is_input_safe env s text)))
     \<subseteq> insert (text, fst (classify_uncached env s text)) (set (cache s))"
proof (cases "rule_based_checks text")
  case None
  show ?thesis
  proof (cases "map_of (cache s) text")
    case miss: None
    then show ?thesis
      using None by (auto simp: is_input_safe_no_rule classify_miss dest: in_set_butlastD)
  next
    case (Some r)
    then have "(text, r) \<in> set (cache s)" by (rule map_of_SomeD)
    then show ?thesis
      using None Some by (auto simp: is_input_safe_no_rule classify_hit)
  qed
next
  case (Some r)
  then show ?thesis by (auto simp: is_input_safe_rule)
qed

lemma reachable_cache_scores:
  "reachable env s \<Longrightarrow> (k, r) \<in> set (cache s) \<Longrightarrow>
   score r = (if label r = code_points ''UNSAFE'' then 1 else 0)"
proof (induction arbitrary: k r rule: reachable.induct)
  case start
  then show ?case by (simp add: init_state_def)
next
  case (call s t)
  from call.prems is_input_safe_cache_subset [of env s t]
  have "(k, r) = (t, fst (classify_uncached env s t)) \<or> (k, r) \<in> set (cache s)"
    by blast
  then show ?case
  proof
    assume "(k, r) = (t, fst (classify_uncached env s t))"
    then show ?thesis using classify_uncached_score [of env s t] by simp
  next
    assume "(k, r) \<in> set (cache s)"
    then show ?thesis by (rule call.IH)
  qed
qed

lemma reachable_classify_score:
  assumes "reachable env s"
  shows "score (fst (classify_input_with_ollama env s text)) =
     (if label (fst (classify_input_with_ollama env s text)) = code_points ''UNSAFE'' then 1 else 0)"
proof (cases "map_of (cache s) text")
  case None
  then show ?thesis using classify_uncached_score [of env s "text"] by (simp add: classify_miss)
next
  case (Some r)
  then have "(text, r) \<in> set (cache s)" by (rule map_of_SomeD)
  with assms have "score r = (if label r = code_points ''UNSAFE'' then 1 else 0)"
    by (rule reachable_cache_scores)
  with Some show ?thesis by (simp add: classify_hit)
qed

section \<open>Failure of the classifier\<close>

text \<open>
  Claim C1. When the classification capability raises at the invocation made for a
  text, the body of the classifier and the cached classifier both return label
  \<^verbatim>\<open>UNSAFE\<close> with score 1.0, and \<^verbatim>\<open>is_input_safe\<close> returns a blocked verdict
  with confidence 1.0: a verdict, not an error. The second hypothesis says that the
  capability is invoked during the call, which is when it can raise.
\<close>

theorem classifier_failure_blocks:
  assumes fails: "classification_chain env (length (classify_log s)) text = Inl e"
    and invoked: "classify_log (snd (is_input_safe env s text)) \<noteq> classify_log s"
  shows "fst (classify_uncached env s text) = \<lparr>label = code_points ''UNSAFE'', score = 1\<rparr> \<and>
         fst (classify_input_with_ollama env s text) = \<lparr>label = code_points ''UNSAFE'', score = 1\<rparr> \<and>
         fst (is_input_safe env s text) =
           \<lparr>status = ''blocked'', reason = Some ''Ollama classified as unsafe'',
            confidence = Some 1, response = ''This prompt is unsafe, can't answer.''\<rparr>"
proof -
  have no_rule: "rule_based_checks text = None"
  proof (cases "rule_based_checks text")
    case (Some r)
    with invoked show ?thesis by (simp add: is_input_safe_rule)
  qed simp
  with invoked have "classify_log (snd (classify_input_with_ollama env s text)) \<noteq> classify_log s"
    by (simp add: is_input_safe_no_rule)
  then have miss: "map_of (cache s) text = None"
    by (simp add: classify_log_hit_iff)
  have body: "fst (classify_uncached env s text) = \<lparr>label = code_points ''UNSAFE'', score = 1\<rparr>"
    using fails by (rule classify_uncached_raises)
  have adapter: "fst (classify_input_with_ollama env s text) = \<lparr>label = code_points ''UNSAFE'', score = 1\<rparr>"
    using miss body by (simp add: classify_miss)
  have "fst (is_input_safe env s text) =
           \<lparr>status = ''blocked'', reason = Some ''Ollama classified as unsafe'',
            confidence = Some 1, response = ''This prompt is unsafe, can't answer.''\<rparr>"
    using no_rule adapter
    by (simp add: is_input_safe_no_rule decide_blocked CONFIDENCE_THRESHOLD_def)
  with body adapter show ?thesis by simp
qed

theorem classifier_failure_blocks_witness:
  "classification_chain (fixed_env (Inl (Exception ''connection refused'')) (Inr ''hi''))
      (length (classify_log init_state)) ''hello'' = Inl (Exception ''connection refused'') \<and>
   classify_log (snd (is_input_safe (fixed_env (Inl (Exception ''connection refused'')) (Inr ''hi''))
      init_state ''hello'')) \<noteq> classify_log init_state \<and>
   fst (is_input_safe (fixed_env (Inl (Exception ''connection refused'')) (Inr ''hi''))
      init_state ''hello'') =
     \<lparr>status = ''blocked'', reason = Some ''Ollama classified as unsafe'',
      confidence = Some 1, response = ''This prompt is unsafe, can't answer.''\<rparr>"
proof -
  let ?env = "fixed_env (Inl (Exception ''connection refused'')) (Inr ''hi'')"
  have h1: "classification_chain ?env (length (classify_log init_state)) ''hello'' =
      Inl (Exception ''connection refused'')"
    by (simp add: fixed_env_def)
  have h2: "classify_log (snd (is_input_safe ?env init_state ''hello'')) \<noteq> classify_log init_state"
    by code_simp
  from classifier_failure_blocks [OF h1 h2] h1 h2 show ?thesis by blast
qed

section \<open>Blocklisted text\<close>

text \<open>
  Claim C2. When the lower-cased text contains a term of the blocklist, which is the case
  when the text contains the term in any mix of cases, \<^verbatim>\<open>is_input_safe\<close> returns
  the blocked verdict with the keyword reason and no confidence, and the state is the
  one before the call: the classifier was not invoked and the cache was not filled,
  whatever the capabilities and the cache are.
\<close>

theorem blocklisted_text_is_rule_blocked:
  assumes "word \<in> BLOCKLIST"
    and "sublist word (lower text) \<or> (lower u = word \<and> sublist u text)"
  shows "is_input_safe env s text =
           (\<lparr>status = ''blocked'', reason = Some ''Blocked due to prohibited keyword.'',
             confidence = None, response = ''This prompt is unsafe, can't answer.''\<rparr>, s)"
proof -
  from assms(2) have "sublist word (lower text)"
    using lower_sublist by blast
  with assms(1) have "rule_based_checks text = Some ''Blocked due to prohibited keyword.''"
    by (auto simp: rule_based_checks_def Let_def)
  then show ?thesis by (rule is_input_safe_rule)
qed

theorem blocklisted_text_is_rule_blocked_witness:
  "''hack'' \<in> BLOCKLIST \<and> lower ''HaCk'' = ''hack'' \<and> sublist ''HaCk'' ''please HaCk the box'' \<and>
   is_input_safe (fixed_env (Inr ''SAFE'') (Inr ''hi'')) init_state ''please HaCk the box'' =
     (\<lparr>status = ''blocked'', reason = Some ''Blocked due to prohibited keyword.'',
       confidence = None, response = ''This prompt is unsafe, can't answer.''\<rparr>, init_state)"
proof -
  have h1: "''hack'' \<in> BLOCKLIST" by (simp add: BLOCKLIST_def)
  have h2: "lower ''HaCk'' = ''hack''" by code_simp
  have h3: "sublist ''HaCk'' ''please HaCk the box''" by code_simp
  from h2 h3 have h4: "sublist ''hack'' (lower ''please HaCk the box'') \<or>
      (lower ''HaCk'' = ''hack'' \<and> sublist ''HaCk'' ''please HaCk the box'')" by blast
  from blocklisted_text_is_rule_blocked [OF h1 h4] h1 h2 h3 show ?thesis by blast
qed

section \<open>The confidence threshold\<close>

text \<open>
  Claim C3. For a text with no rule match, the verdict is blocked exactly when the
  classification has label \<^verbatim>\<open>UNSAFE\<close> and a score strictly greater than 0.8, and
  allowed otherwise: the classification \<^verbatim>\<open>UNSAFE\<close> with score 0.81 is blocked, and
  \<^verbatim>\<open>UNSAFE\<close> with score 0.80, equal to the threshold, is allowed.
\<close>

theorem threshold_is_strict:
  assumes "rule_based_checks text = None"
  shows "status (fst (is_input_safe env s text)) =
           (if label (fst (classify_input_with_ollama env s text)) = code_points ''UNSAFE'' \<and>
               score (fst (classify_input_with_ollama env s text)) > 0.8
            then ''blocked'' else ''allowed'') \<and>
         status (fst (decide env s' text \<lparr>label = code_points ''UNSAFE'', score = 0.81\<rparr>)) = ''blocked'' \<and>
         status (fst (decide env s' text \<lparr>label = code_points ''UNSAFE'', score = 0.80\<rparr>)) = ''allowed''"
  using assms by (simp add: is_input_safe_no_rule status_decide CONFIDENCE_THRESHOLD_def)

theorem threshold_is_strict_witness:
  "rule_based_checks ''hello'' = None \<and>
   status (fst (is_input_safe (fixed_env (Inr ''unsafe'') (Inr ''hi''))
     (init_state\<lparr>cache := [(''hello'', \<lparr>label = code_points ''UNSAFE'', score = 0.80\<rparr>)]\<rparr>) ''hello'')) = ''allowed'' \<and>
   status (fst (is_input_safe (fixed_env (Inr ''unsafe'') (Inr ''hi''))
     (init_state\<lparr>cache := [(''hello'', \<lparr>label = code_points ''UNSAFE'', score = 0.81\<rparr>)]\<rparr>) ''hello'')) = ''blocked'' \<and>
   status (fst (decide (fixed_env (Inr ''unsafe'') (Inr ''hi'')) init_state ''hello''
     \<lparr>label = code_points ''UNSAFE'', score = 0.81\<rparr>)) = ''blocked'' \<and>
   status (fst (decide (fixed_env (Inr ''unsafe'') (Inr ''hi'')) init_state ''hello''
     \<lparr>label = code_points ''UNSAFE'', score = 0.80\<rparr>)) = ''allowed''"
proof -
  let ?env = "fixed_env (Inr ''unsafe'') (Inr ''hi'')"
  let ?s80 = "init_state\<lparr>cache := [(''hello'', \<lparr>label = code_points ''UNSAFE'', score = 0.80\<rparr>)]\<rparr>"
  let ?s81 = "init_state\<lparr>cache := [(''hello'', \<lparr>label = code_points ''UNSAFE'', score = 0.81\<rparr>)]\<rparr>"
  have h: "rule_based_checks ''hello'' = None" by code_simp
  have c80: "fst (classify_input_with_ollama ?env ?s80 ''hello'') = \<lparr>label = code_points ''UNSAFE'', score = 0.80\<rparr>"
    by (simp add: classify_hit)
  have c81: "fst (classify_input_with_ollama ?env ?s81 ''hello'') = \<lparr>label = code_points ''UNSAFE'', score = 0.81\<rparr>"
    by (simp add: classify_hit)
  from threshold_is_strict [OF h, of ?env ?s80 init_state] c80
  have a: "status (fst (is_input_safe ?env ?s80 ''hello'')) = ''allowed''" by simp
  from threshold_is_strict [OF h, of ?env ?s81 init_state] c81
  have b: "status (fst (is_input_safe ?env ?s81 ''hello'')) = ''blocked''" by simp
  from threshold_is_strict [OF h, of ?env ?s81 init_state] h a b show ?thesis by simp
qed

section \<open>Normalisation of the classifier's reply\<close>

text \<open>
  Claim C5, as amended. A reply of the classification capability is stripped of
  surrounding whitespace and upper-cased; the result is the label. The score is 1.0 when
  that label is \<^verbatim>\<open>UNSAFE\<close> and 0.0 for every other label, and the cached
  classifier returns this result on a miss. The label of another reply is the
  normalised reply itself and not \<^verbatim>\<open>SAFE\<close>: the reply \<^verbatim>\<open>maybe\<close> gets the
  label \<^verbatim>\<open>MAYBE\<close>.
\<close>

theorem reply_is_normalised:
  assumes "classification_chain env (length (classify_log s)) text = Inr raw"
    and "map_of (cache s) text = None"
  shows "fst (classify_uncached env s text) =
           \<lparr>label = upper (strip raw),
            score = (if upper (strip raw) = code_points ''UNSAFE'' then 1 else 0)\<rparr> \<and>
         fst (classify_input_with_ollama env s text) = fst (classify_uncached env s text)"
  using assms by (simp add: classify_uncached_returns classify_miss)

theorem reply_is_normalised_witness:
  "classification_chain (fixed_env (Inr ''  unsafe '') (Inr ''hi''))
      (length (classify_log init_state)) ''hello'' = Inr ''  unsafe '' \<and>
   map_of (cache init_state) ''hello'' = None \<and>
   fst (classify_input_with_ollama (fixed_env (Inr ''  unsafe '') (Inr ''hi'')) init_state ''hello'') =
     \<lparr>label = code_points ''UNSAFE'', score = 1\<rparr> \<and>
   classification_chain (fixed_env (Inr (''UNSAFE'' @ [CHR 0xA0])) (Inr ''hi''))
      (length (classify_log init_state)) ''hello'' = Inr (''UNSAFE'' @ [CHR 0xA0]) \<and>
   fst (classify_input_with_ollama (fixed_env (Inr (''UNSAFE'' @ [CHR 0xA0])) (Inr ''hi''))
      init_state ''hello'') = \<lparr>label = code_points ''UNSAFE'', score = 1\<rparr> \<and>
   classification_chain (fixed_env (Inr [CHR ''o'', CHR 0xFC, CHR 0xDF, CHR 0xFF]) (Inr ''hi''))
      (length (classify_log init_state)) ''hello'' = Inr [CHR ''o'', CHR 0xFC, CHR 0xDF, CHR 0xFF] \<and>
   fst (classify_input_with_ollama (fixed_env (Inr [CHR ''o'', CHR 0xFC, CHR 0xDF, CHR 0xFF]) (Inr ''hi''))
      init_state ''hello'') = \<lparr>label = [79, 220, 83, 83, 376], score = 0\<rparr>"
proof -
  let ?e1 = "fixed_env (Inr ''  unsafe '') (Inr ''hi'')"
  let ?e2 = "fixed_env (Inr (''UNSAFE'' @ [CHR 0xA0])) (Inr ''hi'')"
  let ?e3 = "fixed_env (Inr [CHR ''o'', CHR 0xFC, CHR 0xDF, CHR 0xFF]) (Inr ''hi'')"
  have h1: "classification_chain ?e1 (length (classify_log init_state)) ''hello'' = Inr ''  unsafe ''"
    by (simp add: fixed_env_def)
  have h2: "classification_chain ?e2 (length (classify_log init_state)) ''hello'' =
      Inr (''UNSAFE'' @ [CHR 0xA0])"
    by (simp add: fixed_env_def)
  have h3: "classification_chain ?e3 (length (classify_log init_state)) ''hello'' =
      Inr [CHR ''o'', CHR 0xFC, CHR 0xDF, CHR 0xFF]"
    by (simp add: fixed_env_def)
  have m: "map_of (cache init_state) ''hello'' = None" by (simp add: init_state_def)
  have n1: "upper (strip ''  unsafe '') = code_points ''UNSAFE''" by code_simp
  have n2: "upper (strip (''UNSAFE'' @ [CHR 0xA0])) = code_points ''UNSAFE''" by code_simp
  have n3: "upper (strip [CHR ''o'', CHR 0xFC, CHR 0xDF, CHR 0xFF]) = [79, 220, 83, 83, 376]"
    by code_simp
  have n4: "[79, 220, 83, 83, 376] \<noteq> code_points ''UNSAFE''" by code_simp
  from reply_is_normalised [OF h1 m] n1
  have r1: "fst (classify_input_with_ollama ?e1 init_state ''hello'') =
      \<lparr>label = code_points ''UNSAFE'', score = 1\<rparr>" by simp
  from reply_is_normalised [OF h2 m] n2
  have r2: "fst (classify_input_with_ollama ?e2 init_state ''hello'') =
      \<lparr>label = code_points ''UNSAFE'', score = 1\<rparr>" by (simp del: append.simps)
  from reply_is_normalised [OF h3 m] n3 n4
  have r3: "fst (classify_input_with_ollama ?e3 init_state ''hello'') =
      \<lparr>label = [79, 220, 83, 83, 376], score = 0\<rparr>" by simp
  from h1 h2 h3 m r1 r2 r3 show ?thesis by blast
qed

theorem other_reply_keeps_its_label:
  "upper (strip ''maybe'') \<noteq> code_points ''UNSAFE'' \<and>
   fst (classify_input_with_ollama (fixed_env (Inr ''maybe'') (Inr ''hi'')) init_state ''hello'') =
     \<lparr>label = code_points ''MAYBE'', score = 0\<rparr> \<and>
   label (fst (classify_input_with_ollama (fixed_env (Inr ''maybe'') (Inr ''hi'')) init_state ''hello''))
     \<noteq> code_points ''SAFE''"
  by code_simp

section \<open>What the pattern matches\<close>

text \<open>
  The matcher finds every occurrence the pattern describes: one of the four keyword
  pairs in any mix of cases, its two words separated by one or more whitespace
  characters, with no word character directly before or after it.
\<close>

lemma isword_lower_char:
  assumes "isword (lower_char c)"
  shows "isword c"
proof (cases "lower_char c = c")
  case True
  with assms show ?thesis by simp
next
  case False
  then have "(65 \<le> (of_char c :: nat) \<and> (of_char c :: nat) \<le> 90) \<or>
      (192 \<le> (of_char c :: nat) \<and> (of_char c :: nat) \<le> 214) \<or>
      (216 \<le> (of_char c :: nat) \<and> (of_char c :: nat) \<le> 222)"
    by (auto simp: lower_char_def Let_def split: if_splits)
  then show ?thesis by (auto simp: isword_def Let_def)
qed

lemma isword_not_isspace: "isword c \<Longrightarrow> \<not> isspace c"
  by (auto simp: isword_def isspace_def Let_def)

lemma lower_letters_isword:
  assumes "map lower_char a = p" and "p \<noteq> []" and "\<forall>c \<in> set p. isword c"
  shows "a \<noteq> [] \<and> isword (hd a) \<and> isword (last a)"
proof -
  from assms(1,2) have ne: "a \<noteq> []" by auto
  then have "hd a \<in> set a" "last a \<in> set a" by simp_all
  then have "lower_char (hd a) \<in> set p" "lower_char (last a) \<in> set p"
    using assms(1) by auto
  with assms(3) ne show ?thesis by (auto intro: isword_lower_char)
qed

lemma rx_ends_Seq_iff:
  "e \<in> set (rx_ends (Seq r1 r2) text i) \<longleftrightarrow>
     (\<exists>m \<in> set (rx_ends r1 text i). e \<in> set (rx_ends r2 text m))"
  by simp

lemma rx_ends_Alt_iff:
  "e \<in> set (rx_ends (Alt r1 r2) text i) \<longleftrightarrow>
     e \<in> set (rx_ends r1 text i) \<or> e \<in> set (rx_ends r2 text i)"
  by simp

lemma rx_ends_WordB_iff: "e \<in> set (rx_ends WordB text i) \<longleftrightarrow> e = i \<and> at_boundary text i"
  by simp

lemma rx_ends_Lit:
  assumes "map lower_char a = map lower_char p"
  shows "length pre + length a \<in> set (rx_ends (Lit p) (pre @ a @ rest) (length pre))"
proof -
  from assms have "length a = length p" by (metis length_map)
  with assms show ?thesis by simp
qed

lemma rx_ends_Spaces1:
  assumes "ws \<noteq> []" and "\<forall>c \<in> set ws. isspace c" and "rest = [] \<or> \<not> isspace (hd rest)"
  shows "length pre + length ws \<in> set (rx_ends Spaces1 (pre @ ws @ rest) (length pre))"
proof -
  from assms(3) have "takeWhile isspace rest = []" by (cases rest) auto
  with assms(2) have "takeWhile isspace (ws @ rest) = ws" by (simp add: takeWhile_append2)
  then have "rx_ends Spaces1 (pre @ ws @ rest) (length pre) =
      map (\<lambda>k. length pre + k) (rev [1 ..< Suc (length ws)])" by simp
  moreover from assms(1) have "length ws \<in> set (rev [1 ..< Suc (length ws)])"
    by (cases ws) auto
  ultimately show ?thesis by (simp only: set_map) (rule imageI)
qed

lemma rx_ends_two_words:
  assumes a: "map lower_char a = map lower_char A"
    and b: "map lower_char b = map lower_char B"
    and ws: "ws \<noteq> []" "\<forall>c \<in> set ws. isspace c"
    and hd: "b \<noteq> []" "\<not> isspace (hd b)"
  shows "length (pre @ a @ ws @ b) \<in>
           set (rx_ends (two_words A B) (pre @ a @ ws @ b @ post) (length pre))"
proof -
  let ?text = "pre @ a @ ws @ b @ post"
  have 1: "length pre + length a \<in> set (rx_ends (Lit A) ?text (length pre))"
    using a by (rule rx_ends_Lit)
  from hd have "b @ post = [] \<or> \<not> isspace (hd (b @ post))" by simp
  with ws have "length (pre @ a) + length ws \<in>
      set (rx_ends Spaces1 ((pre @ a) @ ws @ (b @ post)) (length (pre @ a)))"
    by (rule rx_ends_Spaces1)
  then have 2: "length pre + length a + length ws \<in>
      set (rx_ends Spaces1 ?text (length pre + length a))"
    by (simp only: append_assoc length_append)
  have "length (pre @ a @ ws) + length b \<in>
      set (rx_ends (Lit B) ((pre @ a @ ws) @ b @ post) (length (pre @ a @ ws)))"
    using b by (rule rx_ends_Lit)
  then have 3: "length (pre @ a @ ws @ b) \<in>
      set (rx_ends (Lit B) ?text (length pre + length a + length ws))"
    by (simp only: append_assoc length_append add.assoc)
  from 2 3 have "length (pre @ a @ ws @ b) \<in>
      set (rx_ends (Seq Spaces1 (Lit B)) ?text (length pre + length a))"
    unfolding rx_ends_Seq_iff by blast
  with 1 show ?thesis
    unfolding two_words_def rx_ends_Seq_iff by blast
qed

lemma in_set_not_Nil: "x \<in> set xs \<Longrightarrow> xs \<noteq> []"
  by auto

lemma search_iff: "search r text \<longleftrightarrow> (\<exists>i \<le> length text. rx_ends r text i \<noteq> [])"
  by (simp only: search_def list_ex_iff set_upt) (auto simp: less_Suc_eq_le)

lemma at_boundary_start:
  assumes "pre = [] \<or> \<not> isword (last pre)" and "rest \<noteq> []" and "isword (hd rest)"
  shows "at_boundary (pre @ rest) (length pre)"
proof -
  from assms(2) have "(pre @ rest) ! length pre = hd rest"
    by (simp add: nth_append hd_conv_nth)
  moreover have "pre \<noteq> [] \<Longrightarrow> (pre @ rest) ! (length pre - 1) = last pre"
    by (simp add: nth_append last_conv_nth)
  ultimately show ?thesis using assms by (auto simp: at_boundary_def)
qed

lemma at_boundary_end:
  assumes "post = [] \<or> \<not> isword (hd post)" and "w \<noteq> []" and "isword (last w)"
  shows "at_boundary (w @ post) (length w)"
proof -
  from assms(2) have "(w @ post) ! (length w - 1) = last w"
    by (simp add: nth_append last_conv_nth)
  moreover have "post \<noteq> [] \<Longrightarrow> (w @ post) ! length w = hd post"
    by (simp add: nth_append hd_conv_nth)
  ultimately show ?thesis using assms by (auto simp: at_boundary_def)
qed

lemma search_delimited_two_words:
  assumes a: "map lower_char a = map lower_char A" "a \<noteq> []" "isword (hd a)"
    and b: "map lower_char b = map lower_char B" "b \<noteq> []" "isword (hd b)" "isword (last b)"
    and ws: "ws \<noteq> []" "\<forall>c \<in> set ws. isspace c"
    and pre: "pre = [] \<or> \<not> isword (last pre)"
    and post: "post = [] \<or> \<not> isword (hd post)"
    and alt: "\<And>e text i. e \<in> set (rx_ends (two_words A B) text i) \<Longrightarrow> e \<in> set (rx_ends r text i)"
  shows "search (Seq WordB (Seq r WordB)) (pre @ a @ ws @ b @ post)"
proof -
  let ?text = "pre @ a @ ws @ b @ post"
  let ?i = "length pre"
  let ?j = "length (pre @ a @ ws @ b)"
  from a(2,3) have "at_boundary (pre @ (a @ ws @ b @ post)) ?i"
    using pre by (intro at_boundary_start) simp_all
  then have start: "?i \<in> set (rx_ends WordB ?text ?i)"
    by (simp only: rx_ends_WordB_iff simp_thms)
  from b(2,4) have "at_boundary ((pre @ a @ ws @ b) @ post) ?j"
    using post by (intro at_boundary_end) simp_all
  then have "at_boundary ?text ?j" by (simp only: append_assoc)
  then have stop: "?j \<in> set (rx_ends WordB ?text ?j)"
    by (simp only: rx_ends_WordB_iff simp_thms)
  from b(3) have "\<not> isspace (hd b)" by (rule isword_not_isspace)
  with a(1) b(1,2) ws have "?j \<in> set (rx_ends (two_words A B) ?text ?i)"
    by (intro rx_ends_two_words)
  then have "?j \<in> set (rx_ends r ?text ?i)" by (rule alt)
  with stop have "?j \<in> set (rx_ends (Seq r WordB) ?text ?i)"
    unfolding rx_ends_Seq_iff by blast
  with start have "?j \<in> set (rx_ends (Seq WordB (Seq r WordB)) ?text ?i)"
    unfolding rx_ends_Seq_iff by blast
  then have "rx_ends (Seq WordB (Seq r WordB)) ?text ?i \<noteq> []" by (rule in_set_not_Nil)
  moreover have "?i \<le> length ?text" by (simp only: length_append le_add1)
  ultimately show ?thesis unfolding search_iff by blast
qed

lemma search_keywords:
  assumes a: "lower a = la" "map lower_char A = la"
    and b: "lower b = lb" "map lower_char B = lb"
    and letters: "la \<noteq> []" "lb \<noteq> []" "\<forall>c \<in> set la. isword c" "\<forall>c \<in> set lb. isword c"
    and ws: "ws \<noteq> []" "\<forall>c \<in> set ws. isspace c"
    and pre: "pre = [] \<or> \<not> isword (last pre)"
    and post: "post = [] \<or> \<not> isword (hd post)"
    and alt: "\<And>e text i. e \<in> set (rx_ends (two_words A B) text i) \<Longrightarrow> e \<in> set (rx_ends r text i)"
  shows "search (Seq WordB (Seq r WordB)) (pre @ a @ ws @ b @ post)"
proof -
  from a(1) have la: "map lower_char a = la" by (simp only: lower_def)
  from b(1) have lb: "map lower_char b = lb" by (simp only: lower_def)
  from la letters(1,3) have wa: "a \<noteq> [] \<and> isword (hd a) \<and> isword (last a)"
    by (rule lower_letters_isword)
  from lb letters(2,4) have wb: "b \<noteq> [] \<and> isword (hd b) \<and> isword (last b)"
    by (rule lower_letters_isword)
  from la a(2) have ea: "map lower_char a = map lower_char A" by (rule trans [OF _ sym])
  from lb b(2) have eb: "map lower_char b = map lower_char B" by (rule trans [OF _ sym])
  from wa have a1: "a \<noteq> []" and a2: "isword (hd a)" by blast+
  from wb have b1: "b \<noteq> []" and b2: "isword (hd b)" and b3: "isword (last b)" by blast+
  show ?thesis
    using ea a1 a2 eb b1 b2 b3 ws pre post alt by (rule search_delimited_two_words)
qed

lemma sql_keywords_are_found:
  assumes kw: "lower a = ''drop'' \<and> lower b = ''table'' \<or>
      lower a = ''union'' \<and> lower b = ''select'' \<or>
      lower a = ''insert'' \<and> lower b = ''into'' \<or>
      lower a = ''delete'' \<and> lower b = ''from''"
    and ws: "ws \<noteq> []" "\<forall>c \<in> set ws. isspace c"
    and pre: "pre = [] \<or> \<not> isword (last pre)"
    and post: "post = [] \<or> \<not> isword (hd post)"
  shows "search SQL_INJECTION_REGEX (pre @ a @ ws @ b @ post)"
proof -
  from kw consider
      (drop_table) "lower a = ''drop''" "lower b = ''table''"
    | (union_select) "lower a = ''union''" "lower b = ''select''"
    | (insert_into) "lower a = ''insert''" "lower b = ''into''"
    | (delete_from) "lower a = ''delete''" "lower b = ''from''"
    by blast
  then show ?thesis
  proof cases
    case drop_table
    have "map lower_char ''DROP'' = ''drop''" "map lower_char ''TABLE'' = ''table''"
      "''drop'' \<noteq> []" "''table'' \<noteq> []"
      "\<forall>c \<in> set ''drop''. isword c" "\<forall>c \<in> set ''table''. isword c"
      by code_simp+
    with drop_table show ?thesis
      unfolding SQL_INJECTION_REGEX_def
      by (intro search_keywords [OF _ _ _ _ _ _ _ _ ws pre post])
         (assumption | simp only: rx_ends_Alt_iff simp_thms)+
  next
    case union_select
    have "map lower_char ''UNION'' = ''union''" "map lower_char ''SELECT'' = ''select''"
      "''union'' \<noteq> []" "''select'' \<noteq> []"
      "\<forall>c \<in> set ''union''. isword c" "\<forall>c \<in> set ''select''. isword c"
      by code_simp+
    with union_select show ?thesis
      unfolding SQL_INJECTION_REGEX_def
      by (intro search_keywords [OF _ _ _ _ _ _ _ _ ws pre post])
         (assumption | simp only: rx_ends_Alt_iff simp_thms)+
  next
    case insert_into
    have "map lower_char ''INSERT'' = ''insert''" "map lower_char ''INTO'' = ''into''"
      "''insert'' \<noteq> []" "''into'' \<noteq> []"
      "\<forall>c \<in> set ''insert''. isword c" "\<forall>c \<in> set ''into''. isword c"
      by code_simp+
    with insert_into show ?thesis
      unfolding SQL_INJECTION_REGEX_def
      by (intro search_keywords [OF _ _ _ _ _ _ _ _ ws pre post])
         (assumption | simp only: rx_ends_Alt_iff simp_thms)+
  next
    case delete_from
    have "map lower_char ''DELETE'' = ''delete''" "map lower_char ''FROM'' = ''from''"
      "''delete'' \<noteq> []" "''from'' \<noteq> []"
      "\<forall>c \<in> set ''delete''. isword c" "\<forall>c \<in> set ''from''. isword c"
      by code_simp+
    with delete_from show ?thesis
      unfolding SQL_INJECTION_REGEX_def
      by (intro search_keywords [OF _ _ _ _ _ _ _ _ ws pre post])
         (assumption | simp only: rx_ends_Alt_iff simp_thms)+
  qed
qed

text \<open>
  A word boundary needs a character on one side that is not a word character: next to
  an accented letter the keywords are not delimited, and next to the multiplication
  sign they are.
\<close>

lemma accented_neighbour_is_no_boundary:
  "\<not> search SQL_INJECTION_REGEX (CHR 0xE9 # ''DROP TABLE x'') \<and>
   rule_based_checks (CHR 0xE9 # ''DROP TABLE x'') = None \<and>
   \<not> search SQL_INJECTION_REGEX (''DROP TABLE'' @ [CHR 0xE9]) \<and>
   search SQL_INJECTION_REGEX (CHR 0xD7 # ''DROP TABLE'' @ [CHR 0xF7])"
  by code_simp

section \<open>The SQL injection pattern\<close>

text \<open>
  Claim C9, as amended. A text in which \<^verbatim>\<open>SQL_INJECTION_REGEX\<close> finds a match is
  blocked by the rule matcher with no confidence and without invoking the classifier.
  The reason is the injection reason when the lower-cased text contains no blocklisted
  term, and the keyword reason when it contains one, since the blocklist is checked
  first, as for \<^verbatim>\<open>DROP TABLE root\<close>.
\<close>

theorem sql_pattern_is_rule_blocked:
  assumes "search SQL_INJECTION_REGEX text"
  shows "is_input_safe env s text =
           (\<lparr>status = ''blocked'',
             reason = Some (if \<exists>word \<in> BLOCKLIST. sublist word (lower text)
                            then ''Blocked due to prohibited keyword.''
                            else ''SQL injection attempt detected.''),
             confidence = None, response = ''This prompt is unsafe, can't answer.''\<rparr>, s)"
proof -
  from assms have "rule_based_checks text =
      Some (if \<exists>word \<in> BLOCKLIST. sublist word (lower text)
            then ''Blocked due to prohibited keyword.''
            else ''SQL injection attempt detected.'')"
    by (simp add: rule_based_checks_def Let_def)
  then show ?thesis by (rule is_input_safe_rule)
qed

theorem sql_pattern_is_rule_blocked_witness:
  "search SQL_INJECTION_REGEX (CHR 0x27 # ''; DROP TABLE users; --'') \<and>
   is_input_safe (fixed_env (Inr ''SAFE'') (Inr ''hi'')) init_state (CHR 0x27 # ''; DROP TABLE users; --'') =
     (\<lparr>status = ''blocked'', reason = Some ''SQL injection attempt detected.'',
       confidence = None, response = ''This prompt is unsafe, can't answer.''\<rparr>, init_state) \<and>
   search SQL_INJECTION_REGEX (''drop'' @ [CHR 0xA0, CHR 0x85] @ ''Table'') \<and>
   is_input_safe (fixed_env (Inr ''SAFE'') (Inr ''hi'')) init_state
       (''drop'' @ [CHR 0xA0, CHR 0x85] @ ''Table'') =
     (\<lparr>status = ''blocked'', reason = Some ''SQL injection attempt detected.'',
       confidence = None, response = ''This prompt is unsafe, can't answer.''\<rparr>, init_state)"
proof -
  let ?env = "fixed_env (Inr ''SAFE'') (Inr ''hi'')"
  let ?t1 = "CHR 0x27 # ''; DROP TABLE users; --''"
  let ?t2 = "''drop'' @ [CHR 0xA0, CHR 0x85] @ ''Table''"
  have h1: "search SQL_INJECTION_REGEX ?t1" by code_simp
  have n1: "\<not> (\<exists>word \<in> BLOCKLIST. sublist word (lower ?t1))" by code_simp
  have h2: "search SQL_INJECTION_REGEX ?t2" by code_simp
  have n2: "\<not> (\<exists>word \<in> BLOCKLIST. sublist word (lower ?t2))" by code_simp
  from sql_pattern_is_rule_blocked [OF h1, of ?env init_state] n1
  have r1: "is_input_safe ?env init_state ?t1 =
     (\<lparr>status = ''blocked'', reason = Some ''SQL injection attempt detected.'',
       confidence = None, response = ''This prompt is unsafe, can't answer.''\<rparr>, init_state)"
    by (simp only: if_False)
  from sql_pattern_is_rule_blocked [OF h2, of ?env init_state] n2
  have r2: "is_input_safe ?env init_state ?t2 =
     (\<lparr>status = ''blocked'', reason = Some ''SQL injection attempt detected.'',
       confidence = None, response = ''This prompt is unsafe, can't answer.''\<rparr>, init_state)"
    by (simp only: if_False)
  from h1 r1 h2 r2 show ?thesis by blast
qed

theorem sql_pattern_with_keyword_reason:
  "search SQL_INJECTION_REGEX ''DROP TABLE root'' \<and>
   reason (fst (is_input_safe (fixed_env (Inr ''SAFE'') (Inr ''hi'')) init_state ''DROP TABLE root'')) =
     Some ''Blocked due to prohibited keyword.'' \<and>
   reason (fst (is_input_safe (fixed_env (Inr ''SAFE'') (Inr ''hi'')) init_state ''DROP TABLE root'')) \<noteq>
     Some ''SQL injection attempt detected.''"
  by code_simp

section \<open>Shape of the verdict\<close>

text \<open>
  Claim C6. The status of every verdict is blocked or allowed. A blocked verdict carries
  the fixed refusal as response and a reason that is present and not empty, and the
  generation capability was not invoked for it. An allowed verdict has no reason, its
  response is the one \<^verbatim>\<open>generate_ollama_response\<close> returns for the text, and the
  generation capability was invoked once.
\<close>

theorem verdict_shape:
  "(status (fst (is_input_safe env s text)) = ''blocked'' \<or>
    status (fst (is_input_safe env s text)) = ''allowed'') \<and>
   (status (fst (is_input_safe env s text)) = ''blocked'' \<longrightarrow>
      response (fst (is_input_safe env s text)) = ''This prompt is unsafe, can't answer.'' \<and>
      reason (fst (is_input_safe env s text)) \<noteq> None \<and>
      reason (fst (is_input_safe env s text)) \<noteq> Some [] \<and>
      generate_log (snd (is_input_safe env s text)) = generate_log s) \<and>
   (status (fst (is_input_safe env s text)) = ''allowed'' \<longrightarrow>
      reason (fst (is_input_safe env s text)) = None \<and>
      response (fst (is_input_safe env s text)) =
        fst (generate_ollama_response env (snd (classify_input_with_ollama env s text)) text) \<and>
      generate_log (snd (is_input_safe env s text)) = generate_log s @ [text])"
proof (cases "rule_based_checks text")
  case None
  show ?thesis
  proof (cases "label (fst (classify_input_with_ollama env s text)) = code_points ''UNSAFE'' \<and>
      score (fst (classify_input_with_ollama env s text)) > CONFIDENCE_THRESHOLD")
    case True
    then show ?thesis using None by (simp add: is_input_safe_no_rule decide_blocked)
  next
    case False
    then show ?thesis using None by (simp add: is_input_safe_no_rule decide_allowed)
  qed
next
  case (Some r)
  then have "r \<noteq> []" by (rule rule_based_checks_nonempty)
  with Some show ?thesis by (simp add: is_input_safe_rule)
qed

theorem verdict_shape_witness:
  "status (fst (is_input_safe (fixed_env (Inr ''UNSAFE'') (Inr ''hi'')) init_state ''hello'')) = ''blocked'' \<and>
   response (fst (is_input_safe (fixed_env (Inr ''UNSAFE'') (Inr ''hi'')) init_state ''hello'')) =
     ''This prompt is unsafe, can't answer.'' \<and>
   reason (fst (is_input_safe (fixed_env (Inr ''UNSAFE'') (Inr ''hi'')) init_state ''hello'')) \<noteq> None \<and>
   generate_log (snd (is_input_safe (fixed_env (Inr ''UNSAFE'') (Inr ''hi'')) init_state ''hello'')) =
     generate_log init_state \<and>
   status (fst (is_input_safe (fixed_env (Inr ''SAFE'') (Inr ''hi'')) init_state ''hello'')) = ''allowed'' \<and>
   reason (fst (is_input_safe (fixed_env (Inr ''SAFE'') (Inr ''hi'')) init_state ''hello'')) = None \<and>
   generate_log (snd (is_input_safe (fixed_env (Inr ''SAFE'') (Inr ''hi'')) init_state ''hello'')) =
     generate_log init_state @ [''hello'']"
proof -
  have b: "status (fst (is_input_safe (fixed_env (Inr ''UNSAFE'') (Inr ''hi'')) init_state ''hello'')) = ''blocked''"
    by code_simp
  have a: "status (fst (is_input_safe (fixed_env (Inr ''SAFE'') (Inr ''hi'')) init_state ''hello'')) = ''allowed''"
    by code_simp
  from verdict_shape [of "fixed_env (Inr ''UNSAFE'') (Inr ''hi'')" init_state "''hello''"]
       verdict_shape [of "fixed_env (Inr ''SAFE'') (Inr ''hi'')" init_state "''hello''"] a b
  show ?thesis by simp
qed

section \<open>Failure of the generator\<close>

text \<open>
  Claim C7. For a text with no rule match whose classification does not block, a
  generation capability that raises gives an allowed verdict whose response is the
  fixed error string, and a reply that is empty or consists of whitespace gives an
  allowed verdict whose response is the fixed placeholder. The verdict stays allowed
  in both cases.
\<close>

theorem generator_failure_stays_allowed:
  assumes "rule_based_checks text = None"
    and "\<not> (label (fst (classify_input_with_ollama env s text)) = code_points ''UNSAFE'' \<and>
            score (fst (classify_input_with_ollama env s text)) > CONFIDENCE_THRESHOLD)"
  shows "(response_chain env (length (generate_log s)) text = Inl e \<longrightarrow>
            fst (is_input_safe env s text) =
              \<lparr>status = ''allowed'', reason = None,
               confidence = Some (score (fst (classify_input_with_ollama env s text))),
               response = ''Error generating response.''\<rparr>) \<and>
         (response_chain env (length (generate_log s)) text = Inr reply \<and>
          (\<forall>c \<in> set reply. isspace c) \<longrightarrow>
            fst (is_input_safe env s text) =
              \<lparr>status = ''allowed'', reason = None,
               confidence = Some (score (fst (classify_input_with_ollama env s text))),
               response = ''No response generated.''\<rparr>)"
  using assms
  by (simp add: is_input_safe_no_rule decide_allowed generate_ollama_response_def
      strip_empty_iff [symmetric] del: not_None_eq)

theorem generator_failure_stays_allowed_witness:
  "rule_based_checks ''hello'' = None \<and>
   response_chain (fixed_env (Inr ''SAFE'') (Inl (Exception ''timeout'')))
     (length (generate_log init_state)) ''hello'' = Inl (Exception ''timeout'') \<and>
   fst (is_input_safe (fixed_env (Inr ''SAFE'') (Inl (Exception ''timeout''))) init_state ''hello'') =
     \<lparr>status = ''allowed'', reason = None, confidence = Some 0,
      response = ''Error generating response.''\<rparr> \<and>
   list_all isspace [CHR 0xA0, CHR 0x20, CHR 0x85] \<and>
   fst (is_input_safe (fixed_env (Inr ''SAFE'') (Inr [CHR 0xA0, CHR 0x20, CHR 0x85])) init_state ''hello'') =
     \<lparr>status = ''allowed'', reason = None, confidence = Some 0,
      response = ''No response generated.''\<rparr>"
proof -
  let ?e1 = "fixed_env (Inr ''SAFE'') (Inl (Exception ''timeout''))"
  let ?e2 = "fixed_env (Inr ''SAFE'') (Inr [CHR 0xA0, CHR 0x20, CHR 0x85])"
  have h: "rule_based_checks ''hello'' = None" by code_simp
  have c1: "fst (classify_input_with_ollama ?e1 init_state ''hello'') = \<lparr>label = code_points ''SAFE'', score = 0\<rparr>"
    by code_simp
  have c2: "fst (classify_input_with_ollama ?e2 init_state ''hello'') = \<lparr>label = code_points ''SAFE'', score = 0\<rparr>"
    by code_simp
  have a1: "\<not> (label (fst (classify_input_with_ollama ?e1 init_state ''hello'')) = code_points ''UNSAFE'' \<and>
      score (fst (classify_input_with_ollama ?e1 init_state ''hello'')) > CONFIDENCE_THRESHOLD)"
    by (simp add: c1 CONFIDENCE_THRESHOLD_def)
  have a2: "\<not> (label (fst (classify_input_with_ollama ?e2 init_state ''hello'')) = code_points ''UNSAFE'' \<and>
      score (fst (classify_input_with_ollama ?e2 init_state ''hello'')) > CONFIDENCE_THRESHOLD)"
    by (simp add: c2 CONFIDENCE_THRESHOLD_def)
  have g1: "response_chain ?e1 (length (generate_log init_state)) ''hello'' = Inl (Exception ''timeout'')"
    by (simp add: fixed_env_def)
  have g2: "response_chain ?e2 (length (generate_log init_state)) ''hello'' = Inr [CHR 0xA0, CHR 0x20, CHR 0x85]"
    by (simp add: fixed_env_def)
  have sp: "list_all isspace [CHR 0xA0, CHR 0x20, CHR 0x85]" by code_simp
  then have sp': "\<forall>c \<in> set [CHR 0xA0, CHR 0x20, CHR 0x85]. isspace c" by (simp add: list_all_iff)
  from generator_failure_stays_allowed [OF h a1, of "Exception ''timeout''" "[CHR 0xA0, CHR 0x20, CHR 0x85]"] g1 c1
  have r1: "fst (is_input_safe ?e1 init_state ''hello'') =
     \<lparr>status = ''allowed'', reason = None, confidence = Some 0,
      response = ''Error generating response.''\<rparr>" by simp
  from generator_failure_stays_allowed [OF h a2, of "Exception ''timeout''" "[CHR 0xA0, CHR 0x20, CHR 0x85]"] g2 sp' c2
  have r2: "fst (is_input_safe ?e2 init_state ''hello'') =
     \<lparr>status = ''allowed'', reason = None, confidence = Some 0,
      response = ''No response generated.''\<rparr>" by simp
  from h g1 r1 sp r2 show ?thesis by blast
qed

section \<open>Scores of the classifier\<close>

text \<open>
  Claim C10. In every state the process can reach, the score the cached classifier
  returns is 0.0 or 1.0, and it is 1.0 exactly when the label is \<^verbatim>\<open>UNSAFE\<close>. The
  body of the classifier gives score 1.0 when the capability raises, and for a reply
  it gives 1.0 exactly when the stripped, upper-cased reply is \<^verbatim>\<open>UNSAFE\<close>. So for a
  text with no rule match the verdict is blocked exactly when the label is
  \<^verbatim>\<open>UNSAFE\<close>.
\<close>

theorem score_is_zero_or_one:
  assumes "reachable env s"
  shows "(score (fst (classify_input_with_ollama env s text)) = 0 \<or>
          score (fst (classify_input_with_ollama env s text)) = 1) \<and>
         (score (fst (classify_input_with_ollama env s text)) = 1 \<longleftrightarrow>
          label (fst (classify_input_with_ollama env s text)) = code_points ''UNSAFE'') \<and>
         (classification_chain env (length (classify_log s)) text = Inl e \<longrightarrow>
            score (fst (classify_uncached env s text)) = 1) \<and>
         (classification_chain env (length (classify_log s)) text = Inr raw \<longrightarrow>
            score (fst (classify_uncached env s text)) =
              (if upper (strip raw) = code_points ''UNSAFE'' then 1 else 0)) \<and>
         (rule_based_checks text = None \<longrightarrow>
            (status (fst (is_input_safe env s text)) = ''blocked'' \<longleftrightarrow>
             label (fst (classify_input_with_ollama env s text)) = code_points ''UNSAFE''))"
proof -
  have sc: "score (fst (classify_input_with_ollama env s text)) =
     (if label (fst (classify_input_with_ollama env s text)) = code_points ''UNSAFE'' then 1 else 0)"
    using assms by (rule reachable_classify_score)
  have "rule_based_checks text = None \<longrightarrow>
            (status (fst (is_input_safe env s text)) = ''blocked'' \<longleftrightarrow>
             label (fst (classify_input_with_ollama env s text)) = code_points ''UNSAFE'')"
    using sc by (simp add: is_input_safe_no_rule decide_def split_beta CONFIDENCE_THRESHOLD_def)
  moreover have "classification_chain env (length (classify_log s)) text = Inl e \<longrightarrow>
            score (fst (classify_uncached env s text)) = 1"
    by (simp add: classify_uncached_raises)
  moreover have "classification_chain env (length (classify_log s)) text = Inr raw \<longrightarrow>
            score (fst (classify_uncached env s text)) =
              (if upper (strip raw) = code_points ''UNSAFE'' then 1 else 0)"
    by (simp add: classify_uncached_returns)
  ultimately show ?thesis using sc by simp
qed

theorem score_is_zero_or_one_witness:
  "reachable (fixed_env (Inr (CHR 0xA0 # ''unsafe'')) (Inr ''hi'')) init_state \<and>
   classification_chain (fixed_env (Inr (CHR 0xA0 # ''unsafe'')) (Inr ''hi''))
     (length (classify_log init_state)) ''hello'' = Inr (CHR 0xA0 # ''unsafe'') \<and>
   upper (strip (CHR 0xA0 # ''unsafe'')) = code_points ''UNSAFE'' \<and>
   score (fst (classify_uncached (fixed_env (Inr (CHR 0xA0 # ''unsafe'')) (Inr ''hi'')) init_state ''hello'')) = 1 \<and>
   rule_based_checks ''hello'' = None \<and>
   label (fst (classify_input_with_ollama (fixed_env (Inr (CHR 0xA0 # ''unsafe'')) (Inr ''hi'')) init_state ''hello'')) = code_points ''UNSAFE'' \<and>
   status (fst (is_input_safe (fixed_env (Inr (CHR 0xA0 # ''unsafe'')) (Inr ''hi'')) init_state ''hello'')) = ''blocked'' \<and>
   reachable (fixed_env (Inl (Exception ''down'')) (Inr ''hi'')) init_state \<and>
   classification_chain (fixed_env (Inl (Exception ''down'')) (Inr ''hi''))
     (length (classify_log init_state)) ''hello'' = Inl (Exception ''down'') \<and>
   score (fst (classify_uncached (fixed_env (Inl (Exception ''down'')) (Inr ''hi'')) init_state ''hello'')) = 1"
proof -
  let ?e1 = "fixed_env (Inr (CHR 0xA0 # ''unsafe'')) (Inr ''hi'')"
  let ?e2 = "fixed_env (Inl (Exception ''down'')) (Inr ''hi'')"
  have r1: "reachable ?e1 init_state" by (rule reachable.start)
  have r2: "reachable ?e2 init_state" by (rule reachable.start)
  have c1: "classification_chain ?e1 (length (classify_log init_state)) ''hello'' = Inr (CHR 0xA0 # ''unsafe'')"
    by (simp add: fixed_env_def)
  have c2: "classification_chain ?e2 (length (classify_log init_state)) ''hello'' = Inl (Exception ''down'')"
    by (simp add: fixed_env_def)
  have n: "upper (strip (CHR 0xA0 # ''unsafe'')) = code_points ''UNSAFE''" by code_simp
  have h: "rule_based_checks ''hello'' = None" by code_simp
  have l: "label (fst (classify_input_with_ollama ?e1 init_state ''hello'')) = code_points ''UNSAFE''" by code_simp
  from score_is_zero_or_one [OF r1, of "''hello''" "Exception ''down''" "(CHR 0xA0 # ''unsafe'')"] c1 n h l
  have w1: "score (fst (classify_uncached ?e1 init_state ''hello'')) = 1 \<and>
      status (fst (is_input_safe ?e1 init_state ''hello'')) = ''blocked''" by simp
  from score_is_zero_or_one [OF r2, of "''hello''" "Exception ''down''" "(CHR 0xA0 # ''unsafe'')"] c2
  have w2: "score (fst (classify_uncached ?e2 init_state ''hello'')) = 1" by simp
  from r1 r2 c1 c2 n h l w1 w2 show ?thesis by blast
qed

section \<open>Eviction from the cache\<close>

subsection \<open>Lists of keys\<close>

lemma take_filter_take:
  "distinct D \<Longrightarrow>
   take n (filter (\<lambda>x. x \<noteq> k) (take (Suc n) D)) = take n (filter (\<lambda>x. x \<noteq> k) D)"
proof (induction D arbitrary: n)
  case Nil
  then show ?case by simp
next
  case (Cons x D)
  show ?case
  proof (cases n)
    case 0
    then show ?thesis by simp
  next
    case (Suc m)
    show ?thesis
    proof (cases "x = k")
      case True
      with Cons.prems have "k \<notin> set D" by simp
      then have "filter (\<lambda>x. x \<noteq> k) D = D" by (auto simp: filter_id_conv)
      moreover from \<open>k \<notin> set D\<close> have "filter (\<lambda>x. x \<noteq> k) (take (Suc m) D) = take (Suc m) D"
        by (auto simp: filter_id_conv dest: in_set_takeD)
      ultimately show ?thesis using True Suc by simp
    next
      case False
      from Cons.prems have "distinct D" by simp
      then have "take m (filter (\<lambda>x. x \<noteq> k) (take (Suc m) D)) = take m (filter (\<lambda>x. x \<noteq> k) D)"
        by (rule Cons.IH)
      with False Suc show ?thesis by simp
    qed
  qed
qed

lemma remdups_snoc: "remdups (ks @ [k]) = filter (\<lambda>x. x \<noteq> k) (remdups ks) @ [k]"
  by (induction ks) auto

lemma rev_remdups_snoc:
  "rev (remdups (ks @ [k])) = k # filter (\<lambda>x. x \<noteq> k) (rev (remdups ks))"
  by (simp add: remdups_snoc rev_filter)

subsection \<open>One call of the cached function\<close>

lemma lru_cache_keys:
  assumes "0 < C" and "distinct (map fst (cache s))" and "length (cache s) \<le> C"
  shows "map fst (cache (snd (lru_cache C (classify_uncached env) s k))) =
           take C (k # filter (\<lambda>x. x \<noteq> k) (map fst (cache s)))"
proof (cases "map_of (cache s) k")
  case None
  then have notin: "k \<notin> set (map fst (cache s))" by (simp add: map_of_eq_None_iff)
  then have id: "filter (\<lambda>x. x \<noteq> k) (map fst (cache s)) = map fst (cache s)"
    by (auto simp: filter_id_conv)
  show ?thesis
  proof (cases "length (cache s) < C")
    case True
    with None assms(1) id show ?thesis by (simp add: lru_cache_miss)
  next
    case False
    with assms(3) have len: "length (cache s) = C" by simp
    obtain n where n: "C = Suc n" using assms(1) by (cases C) auto
    from len n have "map fst (butlast (cache s)) = take n (map fst (cache s))"
      by (simp add: map_butlast butlast_conv_take take_map)
    with None assms(1) id False n show ?thesis by (simp add: lru_cache_miss)
  qed
next
  case (Some r)
  then have "(k, r) \<in> set (cache s)" by (rule map_of_SomeD)
  then have "k \<in> set (map fst (cache s))" by force
  then have "length (filter (\<lambda>x. x \<noteq> k) (map fst (cache s))) < length (map fst (cache s))"
    by (rule length_filter_less) simp
  with assms(3) have short: "length (filter (\<lambda>x. x \<noteq> k) (map fst (cache s))) < C" by simp
  have "map fst (filter (\<lambda>e. fst e \<noteq> k) (cache s)) = filter (\<lambda>x. x \<noteq> k) (map fst (cache s))"
    by (simp add: filter_map comp_def)
  with Some assms(1) short show ?thesis by (simp add: lru_cache_hit)
qed

lemma call_all_snoc: "call_all f s (ks @ [k]) = snd (f (call_all f s ks) k)"
  by (induction ks arbitrary: s) simp_all

lemma lru_cache_history:
  assumes "0 < C"
  shows "map fst (cache (call_all (lru_cache C (classify_uncached env)) init_state ks)) =
           take C (rev (remdups ks))"
proof (induction ks rule: rev_induct)
  case Nil
  then show ?case by (simp add: init_state_def)
next
  case (snoc k ks)
  let ?s = "call_all (lru_cache C (classify_uncached env)) init_state ks"
  let ?D = "rev (remdups ks)"
  obtain n where n: "C = Suc n" using assms by (cases C) auto
  from snoc.IH have keys: "map fst (cache ?s) = take C ?D" .
  then have "distinct (map fst (cache ?s))" by simp
  moreover from keys have "length (map fst (cache ?s)) \<le> C" by simp
  then have "length (cache ?s) \<le> C" by simp
  ultimately have "map fst (cache (snd (lru_cache C (classify_uncached env) ?s k))) =
      take C (k # filter (\<lambda>x. x \<noteq> k) (take C ?D))"
    using assms keys by (simp add: lru_cache_keys)
  also have "\<dots> = take C (k # filter (\<lambda>x. x \<noteq> k) ?D)"
    using n take_filter_take [of ?D n k] by simp
  finally show ?case by (simp add: call_all_snoc rev_remdups_snoc)
qed

text \<open>
  Claim C4, as amended. The cache holds the keys most recently used, not the keys most
  recently inserted: after any sequence of calls on an empty cache of capacity \<open>C\<close>
  (1000 for the classifier), the cached keys are the last \<open>C\<close> distinct keys of the
  sequence in the order of their latest call, so a miss on a full cache evicts the key
  whose latest call, hit or miss, is oldest. When \<open>C + 1\<close> distinct keys are inserted,
  with no hit in between, exactly the first is evicted, and looking it up again is a
  miss that invokes the capability.
\<close>

theorem cache_keeps_most_recently_used:
  assumes "0 < C"
  shows "map fst (cache (call_all (lru_cache C (classify_uncached env)) init_state ks)) =
           take C (rev (remdups ks)) \<and>
         (distinct ks \<and> length ks = Suc C \<longrightarrow>
            map fst (cache (call_all (lru_cache C (classify_uncached env)) init_state ks)) =
              rev (tl ks) \<and>
            map_of (cache (call_all (lru_cache C (classify_uncached env)) init_state ks)) (hd ks) =
              None \<and>
            classify_log (snd (lru_cache C (classify_uncached env)
                (call_all (lru_cache C (classify_uncached env)) init_state ks) (hd ks))) =
              classify_log (call_all (lru_cache C (classify_uncached env)) init_state ks) @ [hd ks]) \<and>
         classify_input_with_ollama env = lru_cache 1000 (classify_uncached env)"
proof -
  let ?s = "call_all (lru_cache C (classify_uncached env)) init_state ks"
  have hist: "map fst (cache ?s) = take C (rev (remdups ks))"
    using assms by (rule lru_cache_history)
  have "map fst (cache ?s) = rev (tl ks) \<and> map_of (cache ?s) (hd ks) = None \<and>
      classify_log (snd (lru_cache C (classify_uncached env) ?s (hd ks))) =
        classify_log ?s @ [hd ks]"
    if d: "distinct ks" and l: "length ks = Suc C"
  proof -
    from l obtain k ks' where ks: "ks = k # ks'" by (cases ks) auto
    with l have l': "length ks' = C" by simp
    from d have "remdups ks = ks" by (rule distinct_remdups_id)
    with hist ks l' have keys: "map fst (cache ?s) = rev (tl ks)" by simp
    from d ks have "hd ks \<notin> set (rev (tl ks))" by simp
    with keys have "hd ks \<notin> fst ` set (cache ?s)" by (metis set_map)
    then have miss: "map_of (cache ?s) (hd ks) = None" by (simp add: map_of_eq_None_iff)
    with assms have "classify_log (snd (lru_cache C (classify_uncached env) ?s (hd ks))) =
        classify_log ?s @ [hd ks]"
      by (simp add: lru_cache_miss)
    with keys miss show ?thesis by simp
  qed
  moreover have "classify_input_with_ollama env = lru_cache 1000 (classify_uncached env)"
    by (simp add: classify_input_with_ollama_def CACHE_SIZE_def)
  ultimately show ?thesis using hist by blast
qed

theorem cache_keeps_most_recently_used_witness:
  "(0::nat) < 2 \<and> distinct [''a'', ''b'', ''c''] \<and> length [''a'', ''b'', ''c''] = Suc 2 \<and>
   map fst (cache (call_all (lru_cache 2 (classify_uncached (fixed_env (Inr ''SAFE'') (Inr ''hi''))))
     init_state [''a'', ''b'', ''c''])) = [''c'', ''b''] \<and>
   map_of (cache (call_all (lru_cache 2 (classify_uncached (fixed_env (Inr ''SAFE'') (Inr ''hi''))))
     init_state [''a'', ''b'', ''c''])) ''a'' = None \<and>
   classify_log (snd (lru_cache 2 (classify_uncached (fixed_env (Inr ''SAFE'') (Inr ''hi'')))
       (call_all (lru_cache 2 (classify_uncached (fixed_env (Inr ''SAFE'') (Inr ''hi''))))
          init_state [''a'', ''b'', ''c'']) ''a'')) =
     classify_log (call_all (lru_cache 2 (classify_uncached (fixed_env (Inr ''SAFE'') (Inr ''hi''))))
        init_state [''a'', ''b'', ''c'']) @ [''a'']"
proof -
  have h1: "(0::nat) < 2" by simp
  have h2: "distinct [''a'', ''b'', ''c'']" by simp
  have h3: "length [''a'', ''b'', ''c''] = Suc 2" by simp
  from cache_keeps_most_recently_used [OF h1, of "fixed_env (Inr ''SAFE'') (Inr ''hi'')"
      "[''a'', ''b'', ''c'']"] h2 h3
  show ?thesis by simp
qed

theorem renewed_entry_outlives_later_one:
  "map fst (cache (call_all (lru_cache 2 (classify_uncached (fixed_env (Inr ''SAFE'') (Inr ''hi''))))
     init_state [''a'', ''b'', ''a'', ''c''])) = [''c'', ''a''] \<and>
   map fst (cache (call_all
     (spec_insertion_order_cache 2 (classify_uncached (fixed_env (Inr ''SAFE'') (Inr ''hi''))))
     init_state [''a'', ''b'', ''a'', ''c''])) = [''c'', ''b'']"
  by code_simp

section \<open>Calling twice with the same text\<close>

lemma classify_stores_result:
  "map_of (cache (snd (classify_input_with_ollama env s text))) text =
     Some (fst (classify_input_with_ollama env s text))"
  by (cases "map_of (cache s) text") (simp_all add: classify_hit classify_miss)

lemma decide_verdict_fields:
  "status (fst (decide env s text ai)) = status (fst (decide env' s' text' ai)) \<and>
   reason (fst (decide env s text ai)) = reason (fst (decide env' s' text' ai)) \<and>
   confidence (fst (decide env s text ai)) = confidence (fst (decide env' s' text' ai))"
  by (simp add: decide_def split_beta)

text \<open>
  Claim C8. For a text with no rule match, a second call of \<^verbatim>\<open>is_input_safe\<close> with
  the same text, directly after the first, does not invoke the classification
  capability, so both calls together invoke it at most once; the second call reads the
  classification the first one used, and status, reason and confidence of the two
  verdicts are equal. A call is a hit exactly when the text itself, untrimmed and in
  its own case, is a key of the cache.
\<close>

theorem repeated_text_hits_cache:
  assumes "rule_based_checks text = None"
  shows "classify_log (snd (is_input_safe env (snd (is_input_safe env s text)) text)) =
           classify_log (snd (is_input_safe env s text)) \<and>
         length (classify_log (snd (is_input_safe env (snd (is_input_safe env s text)) text)))
           \<le> Suc (length (classify_log s)) \<and>
         fst (classify_input_with_ollama env (snd (is_input_safe env s text)) text) =
           fst (classify_input_with_ollama env s text) \<and>
         status (fst (is_input_safe env (snd (is_input_safe env s text)) text)) =
           status (fst (is_input_safe env s text)) \<and>
         reason (fst (is_input_safe env (snd (is_input_safe env s text)) text)) =
           reason (fst (is_input_safe env s text)) \<and>
         confidence (fst (is_input_safe env (snd (is_input_safe env s text)) text)) =
           confidence (fst (is_input_safe env s text)) \<and>
         (classify_log (snd (is_input_safe env s text)) = classify_log s
            \<longleftrightarrow> text \<in> fst ` set (cache s))"
proof -
  let ?ai = "fst (classify_input_with_ollama env s text)"
  let ?s1 = "snd (is_input_safe env s text)"
  have stored: "map_of (cache ?s1) text = Some ?ai"
    using assms by (simp add: is_input_safe_no_rule classify_stores_result)
  then have again: "classify_input_with_ollama env ?s1 text =
      (?ai, ?s1\<lparr>cache := (text, ?ai) # filter (\<lambda>e. fst e \<noteq> text) (cache ?s1)\<rparr>)"
    by (rule classify_hit)
  have log2: "classify_log (snd (is_input_safe env ?s1 text)) = classify_log ?s1"
    using assms again by (simp add: is_input_safe_no_rule)
  have log1: "classify_log ?s1 = classify_log (snd (classify_input_with_ollama env s text))"
    using assms by (simp add: is_input_safe_no_rule)
  have len: "length (classify_log ?s1) \<le> Suc (length (classify_log s))"
    unfolding log1 by (cases "map_of (cache s) text") (simp_all add: classify_hit classify_miss)
  have hit: "classify_log ?s1 = classify_log s \<longleftrightarrow> text \<in> fst ` set (cache s)"
    unfolding log1 by (simp add: classify_log_hit_iff map_of_eq_None_iff)
  have v1: "fst (is_input_safe env s text) =
      fst (decide env (snd (classify_input_with_ollama env s text)) text ?ai)"
    using assms by (simp add: is_input_safe_no_rule)
  have v2: "fst (is_input_safe env ?s1 text) =
      fst (decide env (snd (classify_input_with_ollama env ?s1 text)) text ?ai)"
    using assms again by (simp add: is_input_safe_no_rule)
  from log2 len hit again show ?thesis
    unfolding v1 v2
    using decide_verdict_fields [of env "snd (classify_input_with_ollama env ?s1 text)" "text" ?ai
        env "snd (classify_input_with_ollama env s text)" "text"]
    by simp
qed

theorem repeated_text_hits_cache_witness:
  "rule_based_checks ''hello'' = None \<and>
   classify_log (snd (is_input_safe changing_env init_state ''hello'')) = [''hello''] \<and>
   classify_log (snd (is_input_safe changing_env
      (snd (is_input_safe changing_env init_state ''hello'')) ''hello'')) = [''hello''] \<and>
   status (fst (is_input_safe changing_env
      (snd (is_input_safe changing_env init_state ''hello'')) ''hello'')) = ''allowed'' \<and>
   confidence (fst (is_input_safe changing_env
      (snd (is_input_safe changing_env init_state ''hello'')) ''hello'')) = Some 0 \<and>
   classify_log (snd (is_input_safe changing_env
      (snd (is_input_safe changing_env init_state ''hello'')) ''Hello'')) = [''hello'', ''Hello''] \<and>
   status (fst (is_input_safe changing_env
      (snd (is_input_safe changing_env init_state ''hello'')) ''Hello'')) = ''blocked''"
proof -
  let ?s1 = "\<lparr>cache = [(''hello'', \<lparr>label = code_points ''SAFE'', score = 0\<rparr>)],
     classify_log = [''hello''], generate_log = [''hello'']\<rparr>"
  have h: "rule_based_checks ''hello'' = None" by code_simp
  have first: "is_input_safe changing_env init_state ''hello'' =
      (\<lparr>status = ''allowed'', reason = None, confidence = Some 0, response = ''ok''\<rparr>, ?s1)"
    by code_simp
  have other: "is_input_safe changing_env ?s1 ''Hello'' =
      (\<lparr>status = ''blocked'', reason = Some ''Ollama classified as unsafe'', confidence = Some 1,
        response = ''This prompt is unsafe, can't answer.''\<rparr>,
       \<lparr>cache = [(''Hello'', \<lparr>label = code_points ''UNSAFE'', score = 1\<rparr>),
                 (''hello'', \<lparr>label = code_points ''SAFE'', score = 0\<rparr>)],
        classify_log = [''hello'', ''Hello''], generate_log = [''hello'']\<rparr>)"
    by code_simp
  from repeated_text_hits_cache [OF h, of changing_env init_state] h
  show ?thesis by (simp add: first other)
qed

end
